theory Spec2Isabelle
  imports Main "HOL-Library.AList"
begin

section \<open>The in-memory repository of dharma.domain.repos.in_memory\<close>

text \<open>
  The class \<^verbatim>\<open>InMemoryRepository\<close> keeps two class-level dictionaries that every instance
  shares: \<^verbatim>\<open>_REGISTERS\<close> (class identifier to bucket) and
  \<^verbatim>\<open>_SUPER_KLASSES_WITH_REPO\<close> (class identifier to the list of identifiers found by
  \<^verbatim>\<open>_find_super_repos\<close>). The model passes this shared state explicitly. A method that
  can raise returns a sum whose left side is the exception; a method that mutates returns the
  state as it is when the method is left, also when it is left by an exception, because Python
  does not roll anything back.
\<close>

subsection \<open>Classes\<close>

text \<open>
  A class is its dotted path (what \<^verbatim>\<open>get_dotted_path\<close> returns) together with the tail
  of its method resolution order: \<^verbatim>\<open>klass.mro()\<close> is the class itself followed by its
  strict ancestors, most derived first.
\<close>

datatype klass = Klass (dotted_path: string) (super_klasses: "klass list")

definition get_dotted_path :: "klass \<Rightarrow> string" where
  "get_dotted_path k = dotted_path k"

definition mro :: "klass \<Rightarrow> klass list" where
  "mro k = k # super_klasses k"

subsection \<open>Exceptions\<close>

text \<open>
  The two message templates of the module. The second one is formatted with an id and the
  repository; \<^verbatim>\<open>get\<close> passes the builtin \<^verbatim>\<open>id\<close> rather than its argument
  \<^verbatim>\<open>id_\<close>. The repository's \<^verbatim>\<open>repr\<close> is represented by the dotted path of its class.
\<close>

datatype 'i id_arg = Builtin_id | Given_id 'i

datatype 'i message =
    NO_REPOSITORY_MSG string
  | NOT_FOUND_MSG "'i id_arg" string

datatype 'i error =
    NotFound "'i message"
  | AssertionError
  | KeyError string

datatype error_class = NotFound_class | AssertionError_class | KeyError_class

fun class_of :: "'i error \<Rightarrow> error_class" where
  "class_of (NotFound m) = NotFound_class"
| "class_of AssertionError = AssertionError_class"
| "class_of (KeyError q) = KeyError_class"

subsection \<open>Shared state and instances\<close>

text \<open>
  A bucket is a Python dict from object id to object. It is an association list in insertion
  order: \<^verbatim>\<open>d[k] = v\<close> is \<^const>\<open>AList.update\<close> (an existing key keeps its place, a
  new one goes last), \<^verbatim>\<open>k in d\<close> and \<^verbatim>\<open>d.get(k)\<close> are \<^const>\<open>map_of\<close>,
  \<^verbatim>\<open>d.values()\<close> is \<^term>\<open>map snd\<close>, \<^verbatim>\<open>len(d)\<close> is \<^const>\<open>length\<close> and
  \<^verbatim>\<open>d.pop(k)\<close> is \<^const>\<open>AList.delete\<close>.
\<close>

type_synonym ('i, 'o) bucket = "('i \<times> 'o) list"

record ('i, 'o) registry =
  REGISTERS :: "string \<rightharpoonup> ('i, 'o) bucket"
  SUPER_KLASSES_WITH_REPO :: "string \<rightharpoonup> string list"

record ('i, 'o) repository =
  klass :: klass
  klass_qualname :: string
  get_id :: "'o \<Rightarrow> 'i"

definition repr :: "('i, 'o) repository \<Rightarrow> string" where
  "repr self = dotted_path (klass self)"

subsection \<open>Construction and the class methods\<close>

definition find_super_repos ::
  "('i, 'o) repository \<Rightarrow> klass \<Rightarrow> ('i, 'o) registry \<Rightarrow> string list" where
  "find_super_repos self k st =
     (case SUPER_KLASSES_WITH_REPO st (klass_qualname self) of
        Some supers \<Rightarrow> supers
      | None \<Rightarrow> [get_dotted_path c. c \<leftarrow> mro k, REGISTERS st (get_dotted_path c) \<noteq> None])"

definition init ::
  "klass \<Rightarrow> ('o \<Rightarrow> 'i) \<Rightarrow> ('i, 'o) registry \<Rightarrow> ('i, 'o) repository \<times> ('i, 'o) registry" where
  "init k gid st =
     (let self = \<lparr>klass = k, klass_qualname = get_dotted_path k, get_id = gid\<rparr>;
          st1 = (if SUPER_KLASSES_WITH_REPO st (klass_qualname self) = None
                 then st\<lparr>SUPER_KLASSES_WITH_REPO :=
                          (SUPER_KLASSES_WITH_REPO st)
                            (klass_qualname self \<mapsto> find_super_repos self k st)\<rparr>
                 else st);
          st2 = (if REGISTERS st1 (klass_qualname self) = None
                 then st1\<lparr>REGISTERS := (REGISTERS st1)(klass_qualname self \<mapsto> [])\<rparr>
                 else st1)
      in (self, st2))"

definition clear_all_repos :: "('i, 'o) registry \<Rightarrow> ('i, 'o) registry" where
  "clear_all_repos st = st\<lparr>REGISTERS := (\<lambda>q. map_option (\<lambda>b. []) (REGISTERS st q))\<rparr>"

definition register_klass :: "klass \<Rightarrow> ('i, 'o) registry \<Rightarrow> klass \<times> ('i, 'o) registry" where
  "register_klass k st = (k, st\<lparr>REGISTERS := (REGISTERS st)(get_dotted_path k \<mapsto> [])\<rparr>)"

subsection \<open>Queries\<close>

definition get :: "('i, 'o) repository \<Rightarrow> 'i \<Rightarrow> ('i, 'o) registry \<Rightarrow> 'i error + 'o" where
  "get self i st =
     (case REGISTERS st (klass_qualname self) of
        None \<Rightarrow> Inl (NotFound (NO_REPOSITORY_MSG (klass_qualname self)))
      | Some klass_register \<Rightarrow>
          (case map_of klass_register i of
             None \<Rightarrow> Inl (NotFound (NOT_FOUND_MSG Builtin_id (repr self)))
           | Some obj \<Rightarrow> Inr obj))"

definition get_or_none ::
  "('i, 'o) repository \<Rightarrow> 'i \<Rightarrow> ('i, 'o) registry \<Rightarrow> 'i error + 'o option" where
  "get_or_none self i st =
     (case REGISTERS st (klass_qualname self) of
        None \<Rightarrow> Inl (NotFound (NO_REPOSITORY_MSG (klass_qualname self)))
      | Some klass_register \<Rightarrow> Inr (map_of klass_register i))"

definition all_repo :: "('i, 'o) repository \<Rightarrow> ('i, 'o) registry \<Rightarrow> 'i error + 'o list" where
  "all_repo self st =
     (case REGISTERS st (klass_qualname self) of
        None \<Rightarrow> Inl (NotFound (NO_REPOSITORY_MSG (klass_qualname self)))
      | Some klass_register \<Rightarrow> Inr (map snd klass_register))"

definition exists :: "('i, 'o) repository \<Rightarrow> 'i \<Rightarrow> ('i, 'o) registry \<Rightarrow> 'i error + bool" where
  "exists self i st =
     (case REGISTERS st (klass_qualname self) of
        None \<Rightarrow> Inl (NotFound (NO_REPOSITORY_MSG (klass_qualname self)))
      | Some klass_register \<Rightarrow> Inr (map_of klass_register i \<noteq> None))"

definition filter_repo ::
  "('i, 'o) repository \<Rightarrow> ('o \<Rightarrow> bool) \<Rightarrow> ('i, 'o) registry \<Rightarrow> 'i error + 'o list" where
  "filter_repo self predicate st =
     (case REGISTERS st (klass_qualname self) of
        None \<Rightarrow> Inl (NotFound (NO_REPOSITORY_MSG (klass_qualname self)))
      | Some klass_register \<Rightarrow> Inr [obj \<leftarrow> map snd klass_register. predicate obj])"

text \<open>
  \<^verbatim>\<open>count\<close> takes an optional predicate; \<^verbatim>\<open>None\<close> is the default and takes the first
  branch (\<^verbatim>\<open>if not predicate\<close>; a predicate object is taken to be truthy). With a
  predicate it calls \<^verbatim>\<open>filter\<close> and lets its exception through.
\<close>

definition count ::
  "('i, 'o) repository \<Rightarrow> ('o \<Rightarrow> bool) option \<Rightarrow> ('i, 'o) registry \<Rightarrow> 'i error + int" where
  "count self predicate st =
     (case predicate of
        None \<Rightarrow>
          (case REGISTERS st (klass_qualname self) of
             None \<Rightarrow> Inl (NotFound (NO_REPOSITORY_MSG (klass_qualname self)))
           | Some klass_register \<Rightarrow> Inr (int (length klass_register)))
      | Some p \<Rightarrow>
          (case filter_repo self p st of
             Inl e \<Rightarrow> Inl e
           | Inr filtered \<Rightarrow> Inr (int (length filtered))))"

subsection \<open>Mutations\<close>

text \<open>
  The base class's \<^verbatim>\<open>insert\<close>, \<^verbatim>\<open>update\<close> and \<^verbatim>\<open>batch_update\<close>, called first
  by the overriding methods, belong to the abstract contract and are taken to return without
  raising; \<^verbatim>\<open>_get_id\<close> is a total function of the object.

  \<^verbatim>\<open>_SUPER_KLASSES_WITH_REPO\<close> is a \<^verbatim>\<open>defaultdict(list)\<close>: subscripting it with a
  missing key stores an empty list under that key and returns it.
\<close>

definition defaultdict_getitem ::
  "(string \<rightharpoonup> string list) \<Rightarrow> string \<Rightarrow> string list \<times> (string \<rightharpoonup> string list)" where
  "defaultdict_getitem d q = (case d q of None \<Rightarrow> ([], d(q \<mapsto> [])) | Some v \<Rightarrow> (v, d))"

text \<open>
  The loop of \<^verbatim>\<open>insert\<close> over the cached identifiers. \<^verbatim>\<open>self._REGISTERS[q]\<close> raises
  \<^verbatim>\<open>KeyError\<close> when \<open>q\<close> has no bucket; the \<^verbatim>\<open>assert\<close> raises when the id is a key of
  the bucket, whatever object is stored there (assertions are taken to be enabled). What the
  loop has written before it raises stays written.
\<close>

fun fan_out ::
  "string list \<Rightarrow> 'i \<Rightarrow> 'o \<Rightarrow> (string \<rightharpoonup> ('i, 'o) bucket)
     \<Rightarrow> ('i error + bool) \<times> (string \<rightharpoonup> ('i, 'o) bucket)" where
  "fan_out [] i obj R = (Inr True, R)"
| "fan_out (super_klass_qualname # qs) i obj R =
     (case R super_klass_qualname of
        None \<Rightarrow> (Inl (KeyError super_klass_qualname), R)
      | Some b \<Rightarrow>
          if map_of b i \<noteq> None then (Inl AssertionError, R)
          else fan_out qs i obj (R(super_klass_qualname \<mapsto> AList.update i obj b)))"

definition insert_repo ::
  "('i, 'o) repository \<Rightarrow> 'o \<Rightarrow> ('i, 'o) registry \<Rightarrow> ('i error + bool) \<times> ('i, 'o) registry" where
  "insert_repo self obj st =
     (case REGISTERS st (klass_qualname self) of
        None \<Rightarrow> (Inl (NotFound (NO_REPOSITORY_MSG (klass_qualname self))), st)
      | Some klass_register \<Rightarrow>
          (let i = get_id self obj;
               R1 = (REGISTERS st)(klass_qualname self \<mapsto> AList.update i obj klass_register);
               (supers, S1) = defaultdict_getitem (SUPER_KLASSES_WITH_REPO st) (klass_qualname self);
               (res, R2) = fan_out supers i obj R1
           in (res, st\<lparr>REGISTERS := R2, SUPER_KLASSES_WITH_REPO := S1\<rparr>)))"

definition update_repo ::
  "('i, 'o) repository \<Rightarrow> 'o \<Rightarrow> ('i, 'o) registry \<Rightarrow> ('i error + bool) \<times> ('i, 'o) registry" where
  "update_repo self obj st =
     (case REGISTERS st (klass_qualname self) of
        None \<Rightarrow> (Inl (NotFound (NO_REPOSITORY_MSG (klass_qualname self))), st)
      | Some klass_register \<Rightarrow>
          (Inr True,
           st\<lparr>REGISTERS := (REGISTERS st)
                (klass_qualname self \<mapsto> AList.update (get_id self obj) obj klass_register)\<rparr>))"

text \<open>
  Modelled from the spec: \<^verbatim>\<open>error_catcher\<close> of \<^verbatim>\<open>dharma.utils.operators\<close> is imported
  but not part of the module. The spec describes it as the helper "that calls a function and
  converts a specified subset of failure kinds into a per-item success/failure outcome", and
  \<^verbatim>\<open>batch_update\<close> returns a mapping from id to bool: an exception of one of the given
  classes becomes \<open>False\<close>, any other exception goes on to the caller, a normal return is
  passed through.
\<close>

definition error_catcher ::
  "error_class list \<Rightarrow> ('a \<Rightarrow> 's \<Rightarrow> ('i error + bool) \<times> 's) \<Rightarrow> 'a \<Rightarrow> 's
     \<Rightarrow> ('i error + bool) \<times> 's" where
  "error_catcher error_classes f x st =
     (case f x st of
        (Inl e, st') \<Rightarrow>
          if class_of e \<in> set error_classes then (Inr False, st') else (Inl e, st')
      | (Inr v, st') \<Rightarrow> (Inr v, st'))"

text \<open>
  The dict comprehension of \<^verbatim>\<open>batch_update\<close>: the objects are taken in order, the
  result dict is filled with \<^verbatim>\<open>result[_get_id(obj)] = error_catcher(...)\<close>, and an
  exception that \<^verbatim>\<open>error_catcher\<close> lets through ends the comprehension.
\<close>

fun batch_loop ::
  "('i, 'o) repository \<Rightarrow> 'o list \<Rightarrow> ('i \<times> bool) list \<Rightarrow> ('i, 'o) registry
     \<Rightarrow> ('i error + ('i \<times> bool) list) \<times> ('i, 'o) registry" where
  "batch_loop self [] acc st = (Inr acc, st)"
| "batch_loop self (obj # objs) acc st =
     (case error_catcher [AssertionError_class, NotFound_class] (insert_repo self) obj st of
        (Inl e, st') \<Rightarrow> (Inl e, st')
      | (Inr ok, st') \<Rightarrow> batch_loop self objs (AList.update (get_id self obj) ok acc) st')"

definition batch_update ::
  "('i, 'o) repository \<Rightarrow> 'o list \<Rightarrow> ('i, 'o) registry
     \<Rightarrow> ('i error + ('i \<times> bool) list) \<times> ('i, 'o) registry" where
  "batch_update self objs st = batch_loop self objs [] st"

text \<open>
  \<^verbatim>\<open>remove\<close> and \<^verbatim>\<open>pop\<close> wrap the whole expression
  \<^verbatim>\<open>self._REGISTERS[self._klass_qualname].pop(id_)\<close> in one \<^verbatim>\<open>except KeyError\<close>, so
  a missing bucket and a missing id raise the same exception with the same message.
\<close>

definition remove_repo ::
  "('i, 'o) repository \<Rightarrow> 'o \<Rightarrow> ('i, 'o) registry \<Rightarrow> ('i error + unit) \<times> ('i, 'o) registry" where
  "remove_repo self obj st =
     (let i = get_id self obj in
      case REGISTERS st (klass_qualname self) of
        None \<Rightarrow> (Inl (NotFound (NOT_FOUND_MSG (Given_id i) (repr self))), st)
      | Some klass_register \<Rightarrow>
          (case map_of klass_register i of
             None \<Rightarrow> (Inl (NotFound (NOT_FOUND_MSG (Given_id i) (repr self))), st)
           | Some v \<Rightarrow>
               (Inr (),
                st\<lparr>REGISTERS := (REGISTERS st)
                     (klass_qualname self \<mapsto> AList.delete i klass_register)\<rparr>)))"

definition pop ::
  "('i, 'o) repository \<Rightarrow> 'i \<Rightarrow> ('i, 'o) registry \<Rightarrow> ('i error + 'o) \<times> ('i, 'o) registry" where
  "pop self i st =
     (case REGISTERS st (klass_qualname self) of
        None \<Rightarrow> (Inl (NotFound (NOT_FOUND_MSG (Given_id i) (repr self))), st)
      | Some klass_register \<Rightarrow>
          (case map_of klass_register i of
             None \<Rightarrow> (Inl (NotFound (NOT_FOUND_MSG (Given_id i) (repr self))), st)
           | Some v \<Rightarrow>
               (Inr v,
                st\<lparr>REGISTERS := (REGISTERS st)
                     (klass_qualname self \<mapsto> AList.delete i klass_register)\<rparr>)))"

subsection \<open>A small class hierarchy to run the methods on\<close>

definition Object :: klass where
  "Object = Klass ''builtins.object'' []"

definition Animal :: klass where
  "Animal = Klass ''zoo.Animal'' [Object]"

definition Dog :: klass where
  "Dog = Klass ''zoo.Dog'' [Animal, Object]"

definition empty_registry :: "(nat, nat \<times> string) registry" where
  "empty_registry = \<lparr>REGISTERS = Map.empty, SUPER_KLASSES_WITH_REPO = Map.empty\<rparr>"

definition rex :: "nat \<times> string" where
  "rex = (1, ''Rex'')"

definition max_dog :: "nat \<times> string" where
  "max_dog = (2, ''Max'')"

text \<open>\<^verbatim>\<open>register_klass(Animal)\<close>, then the first \<^verbatim>\<open>InMemoryRepository(Dog)\<close>.\<close>

definition animal_registered :: "(nat, nat \<times> string) registry" where
  "animal_registered = snd (register_klass Animal empty_registry)"

definition zoo :: "(nat, nat \<times> string) registry" where
  "zoo = snd (init Dog fst animal_registered)"

definition dog_repo :: "(nat, nat \<times> string) repository" where
  "dog_repo = \<lparr>klass = Dog, klass_qualname = ''zoo.Dog'', get_id = fst\<rparr>"

definition animal_repo :: "(nat, nat \<times> string) repository" where
  "animal_repo = \<lparr>klass = Animal, klass_qualname = ''zoo.Animal'', get_id = fst\<rparr>"

text \<open>\<^verbatim>\<open>register_klass(Dog)\<close>, then the first \<^verbatim>\<open>InMemoryRepository(Dog)\<close>.\<close>

definition dog_registered :: "(nat, nat \<times> string) registry" where
  "dog_registered = snd (init Dog fst (snd (register_klass Dog empty_registry)))"

definition zoo_rex :: "(nat, nat \<times> string) registry" where
  "zoo_rex = snd (insert_repo dog_repo rex zoo)"

subsection \<open>Observations and sequences of calls\<close>

text \<open>What a bucket holds under an id, and whether the id is a key of it.\<close>

definition entry :: "('i, 'o) registry \<Rightarrow> string \<Rightarrow> 'i \<Rightarrow> 'o option" where
  "entry st q i = (case REGISTERS st q of None \<Rightarrow> None | Some b \<Rightarrow> map_of b i)"

definition has_key :: "(string \<rightharpoonup> ('i, 'o) bucket) \<Rightarrow> string \<Rightarrow> 'i \<Rightarrow> bool" where
  "has_key R q i = (case R q of None \<Rightarrow> False | Some b \<Rightarrow> map_of b i \<noteq> None)"

text \<open>
  Every identifier cached for a class has a bucket. \<^verbatim>\<open>_find_super_repos\<close> caches only
  identifiers that have one and no method deletes a key of \<^verbatim>\<open>_REGISTERS\<close>, so this holds
  in every state the methods can reach from the empty dictionaries.
\<close>

definition supers_have_buckets :: "string \<Rightarrow> ('i, 'o) registry \<Rightarrow> bool" where
  "supers_have_buckets q st =
     (case SUPER_KLASSES_WITH_REPO st q of
        None \<Rightarrow> True
      | Some supers \<Rightarrow> list_all (\<lambda>a. REGISTERS st a \<noteq> None) supers)"

text \<open>The state after the objects have been inserted one after the other, raised or not.\<close>

definition insert_each ::
  "('i, 'o) repository \<Rightarrow> 'o list \<Rightarrow> ('i, 'o) registry \<Rightarrow> ('i, 'o) registry" where
  "insert_each self objs st = foldl (\<lambda>s obj. snd (insert_repo self obj s)) st objs"

text \<open>The outcome of each insert of such a run, with the id it is recorded under.\<close>

fun outcomes :: "('i, 'o) repository \<Rightarrow> 'o list \<Rightarrow> ('i, 'o) registry \<Rightarrow> ('i \<times> bool) list" where
  "outcomes self [] st = []"
| "outcomes self (obj # objs) st =
     (get_id self obj, fst (insert_repo self obj st) = Inr True)
       # outcomes self objs (snd (insert_repo self obj st))"

text \<open>
  Two states look the same to an insert of id \<open>i\<close> through a repository of class \<open>q\<close>: the
  same buckets exist, \<open>i\<close> is a key of the same buckets, and the cached list of \<open>q\<close> is
  the same (a missing entry reads as the empty list).
\<close>

definition same_keys ::
  "'i \<Rightarrow> (string \<rightharpoonup> ('i, 'o) bucket) \<Rightarrow> (string \<rightharpoonup> ('i, 'o) bucket) \<Rightarrow> bool" where
  "same_keys i R R' \<longleftrightarrow>
     (\<forall>a. (R a = None \<longleftrightarrow> R' a = None) \<and> (has_key R a i \<longleftrightarrow> has_key R' a i))"

definition agree_on :: "'i \<Rightarrow> string \<Rightarrow> ('i, 'o) registry \<Rightarrow> ('i, 'o) registry \<Rightarrow> bool" where
  "agree_on i q st st' \<longleftrightarrow>
     same_keys i (REGISTERS st) (REGISTERS st')
     \<and> fst (defaultdict_getitem (SUPER_KLASSES_WITH_REPO st) q)
         = fst (defaultdict_getitem (SUPER_KLASSES_WITH_REPO st') q)"

text \<open>The result dict after the recorded outcomes have been stored in order.\<close>

definition record_all :: "('i \<times> bool) list \<Rightarrow> ('i \<times> bool) list \<Rightarrow> ('i \<times> bool) list" where
  "record_all acc kvs = foldl (\<lambda>a (k, v). AList.update k v a) acc kvs"

text \<open>A call of a method that can change the shared state, and a sequence of such calls.\<close>

datatype ('i, 'o) call =
    Init klass "'o \<Rightarrow> 'i"
  | Register_klass klass
  | Clear_all_repos
  | Insert "('i, 'o) repository" 'o
  | Update "('i, 'o) repository" 'o
  | Batch_update "('i, 'o) repository" "'o list"
  | Remove "('i, 'o) repository" 'o
  | Pop "('i, 'o) repository" 'i

fun step :: "('i, 'o) call \<Rightarrow> ('i, 'o) registry \<Rightarrow> ('i, 'o) registry" where
  "step (Init k gid) st = snd (init k gid st)"
| "step (Register_klass k) st = snd (register_klass k st)"
| "step Clear_all_repos st = clear_all_repos st"
| "step (Insert self obj) st = snd (insert_repo self obj st)"
| "step (Update self obj) st = snd (update_repo self obj st)"
| "step (Batch_update self objs) st = snd (batch_update self objs st)"
| "step (Remove self obj) st = snd (remove_repo self obj st)"
| "step (Pop self i) st = snd (pop self i st)"

definition run :: "('i, 'o) call list \<Rightarrow> ('i, 'o) registry \<Rightarrow> ('i, 'o) registry" where
  "run calls st = foldl (\<lambda>s c. step c s) st calls"

text \<open>
  The registry after \<^verbatim>\<open>register_klass(object)\<close>, \<^verbatim>\<open>InMemoryRepository(Animal)\<close> and
  an insert of \<open>rex\<close> through the repository of \<open>Dog\<close>, in this order, on \<open>zoo\<close>.
\<close>

definition zoo_later :: "(nat, nat \<times> string) registry" where
  "zoo_later = snd (insert_repo dog_repo rex (run [Register_klass Object, Init Animal fst] zoo))"

section \<open>Lemmas\<close>

subsection \<open>The example registry\<close>

lemmas zoo_defs = Object_def Animal_def Dog_def empty_registry_def rex_def max_dog_def zoo_def
  animal_registered_def dog_repo_def animal_repo_def init_def register_klass_def find_super_repos_def
  get_dotted_path_def mro_def

lemma zoo_SUPER: "SUPER_KLASSES_WITH_REPO zoo ''zoo.Dog'' = Some [''zoo.Animal'']"
  by (simp add: zoo_defs)

lemma zoo_REGISTERS:
  "REGISTERS zoo ''zoo.Dog'' = Some []" "REGISTERS zoo ''zoo.Animal'' = Some []"
  by (simp_all add: zoo_defs)

lemma zoo_rex_REGISTERS:
  "REGISTERS zoo_rex ''zoo.Dog'' = Some [(1, rex)]"
  "REGISTERS zoo_rex ''zoo.Animal'' = Some [(1, rex)]"
  by (simp_all add: zoo_rex_def insert_repo_def defaultdict_getitem_def zoo_SUPER zoo_REGISTERS
        dog_repo_def rex_def)

lemma zoo_rex_SUPER: "SUPER_KLASSES_WITH_REPO zoo_rex ''zoo.Dog'' = Some [''zoo.Animal'']"
  by (simp add: zoo_rex_def insert_repo_def defaultdict_getitem_def zoo_SUPER zoo_REGISTERS
        dog_repo_def rex_def split: prod.splits)

lemma insert_rex_zoo: "insert_repo dog_repo rex zoo = (Inr True, zoo_rex)"
  by (simp add: zoo_rex_def prod_eq_iff insert_repo_def defaultdict_getitem_def zoo_SUPER
        zoo_REGISTERS dog_repo_def rex_def)

subsection \<open>The loop over the cached identifiers\<close>

lemma fan_out_keeps_present:
  "R q = Some b \<Longrightarrow> map_of b i \<noteq> None \<Longrightarrow> snd (fan_out qs i obj R) q = Some b"
proof (induction qs arbitrary: R)
  case Nil
  then show ?case by simp
next
  case (Cons a qs)
  show ?case
  proof (cases "R a")
    case None
    with Cons.prems show ?thesis by simp
  next
    case (Some c)
    show ?thesis
    proof (cases "map_of c i = None")
      case False
      with Some Cons.prems show ?thesis by simp
    next
      case True
      with Some Cons.prems have "a \<noteq> q" by auto
      then have "(R(a \<mapsto> AList.update i obj c)) q = Some b"
        using Cons.prems(1) by simp
      then have "snd (fan_out qs i obj (R(a \<mapsto> AList.update i obj c))) q = Some b"
        using Cons.prems(2) by (rule Cons.IH)
      with Some True show ?thesis by simp
    qed
  qed
qed

lemma fan_out_frame: "a \<notin> set qs \<Longrightarrow> snd (fan_out qs i obj R) a = R a"
  by (induction qs arbitrary: R) (auto split: option.splits)

lemma fan_out_dom: "(snd (fan_out qs i obj R) a = None) = (R a = None)"
  by (induction qs arbitrary: R) (auto split: option.splits)

lemma fan_out_success:
  "fan_out qs i obj R = (Inr v, R') \<Longrightarrow> a \<in> set qs \<Longrightarrow>
     \<exists>b. R' a = Some b \<and> map_of b i = Some obj"
proof (induction qs arbitrary: R)
  case Nil
  then show ?case by simp
next
  case (Cons q qs)
  from Cons.prems(1) obtain b where b: "R q = Some b" "map_of b i = None"
    and rest: "fan_out qs i obj (R(q \<mapsto> AList.update i obj b)) = (Inr v, R')"
    by (auto split: option.splits if_splits)
  show ?case
  proof (cases "a \<in> set qs")
    case True
    then show ?thesis using Cons.IH [OF rest] by simp
  next
    case False
    with Cons.prems(2) have "a = q" by simp
    moreover have "snd (fan_out qs i obj (R(q \<mapsto> AList.update i obj b))) q
                     = Some (AList.update i obj b)"
      by (rule fan_out_keeps_present) (simp_all add: AList.update_conv')
    ultimately show ?thesis using rest by (simp add: AList.update_conv')
  qed
qed

lemma fan_out_result:
  "list_all (\<lambda>a. R a \<noteq> None) qs \<Longrightarrow>
     fst (fan_out qs i obj R) = Inr True \<or> fst (fan_out qs i obj R) = Inl AssertionError"
proof (induction qs arbitrary: R)
  case Nil
  then show ?case by simp
next
  case (Cons q qs)
  then obtain b where b: "R q = Some b" by auto
  let ?R = "R(q \<mapsto> AList.update i obj b)"
  have "list_all (\<lambda>a. ?R a \<noteq> None) qs"
    using Cons.prems by (simp add: list_all_iff)
  then have ih: "fst (fan_out qs i obj ?R) = Inr True
                 \<or> fst (fan_out qs i obj ?R) = Inl AssertionError"
    by (rule Cons.IH)
  show ?case
  proof (cases "map_of b i = None")
    case True
    with b ih show ?thesis by simp
  next
    case False
    with b show ?thesis by simp
  qed
qed

lemma fan_out_conflict:
  "list_all (\<lambda>a. R a \<noteq> None) qs \<Longrightarrow> \<exists>a\<in>set qs. has_key R a i \<Longrightarrow>
     fst (fan_out qs i obj R) = Inl AssertionError"
proof (induction qs arbitrary: R)
  case Nil
  then show ?case by simp
next
  case (Cons q qs)
  then obtain b where b: "R q = Some b" by auto
  show ?case
  proof (cases "map_of b i = None")
    case False
    with b show ?thesis by simp
  next
    case True
    let ?R = "R(q \<mapsto> AList.update i obj b)"
    from Cons.prems(2) obtain a where a0: "a \<in> set (q # qs)" "has_key R a i" by blast
    with b True have "a \<noteq> q" by (auto simp: has_key_def)
    with a0 have a: "a \<in> set qs" "has_key R a i" "a \<noteq> q" by simp_all
    have "list_all (\<lambda>a. ?R a \<noteq> None) qs"
      using Cons.prems(1) by (simp add: list_all_iff)
    moreover have "\<exists>a\<in>set qs. has_key ?R a i"
      using a by (auto simp: has_key_def)
    ultimately have "fst (fan_out qs i obj ?R) = Inl AssertionError"
      by (rule Cons.IH)
    with b True show ?thesis by simp
  qed
qed

lemma fan_out_leaves_key:
  "list_all (\<lambda>a. R a \<noteq> None) qs \<Longrightarrow> qs \<noteq> [] \<Longrightarrow>
     has_key (snd (fan_out qs i obj R)) (hd qs) i"
proof (cases qs)
  case Nil
  assume "qs \<noteq> []" with Nil show ?thesis by simp
next
  case (Cons q qs')
  assume "list_all (\<lambda>a. R a \<noteq> None) qs"
  with Cons obtain b where b: "R q = Some b" by auto
  show ?thesis
  proof (cases "map_of b i = None")
    case False
    with b Cons show ?thesis by (simp add: has_key_def)
  next
    case True
    have "snd (fan_out qs' i obj (R(q \<mapsto> AList.update i obj b))) q
            = Some (AList.update i obj b)"
      by (rule fan_out_keeps_present) (simp_all add: AList.update_conv')
    with b True Cons show ?thesis by (simp add: has_key_def AList.update_conv')
  qed
qed

lemma insert_repo_unfold:
  "REGISTERS st (klass_qualname self) = Some b \<Longrightarrow>
   insert_repo self obj st =
     (fst (fan_out (fst (defaultdict_getitem (SUPER_KLASSES_WITH_REPO st) (klass_qualname self)))
             (get_id self obj) obj
             ((REGISTERS st)(klass_qualname self \<mapsto> AList.update (get_id self obj) obj b))),
      st\<lparr>REGISTERS :=
            snd (fan_out (fst (defaultdict_getitem (SUPER_KLASSES_WITH_REPO st) (klass_qualname self)))
                  (get_id self obj) obj
                  ((REGISTERS st)(klass_qualname self \<mapsto> AList.update (get_id self obj) obj b))),
          SUPER_KLASSES_WITH_REPO :=
            snd (defaultdict_getitem (SUPER_KLASSES_WITH_REPO st) (klass_qualname self))\<rparr>)"
  by (simp add: insert_repo_def Let_def split: prod.splits)

lemma insert_repo_no_bucket:
  "REGISTERS st (klass_qualname self) = None \<Longrightarrow>
   insert_repo self obj st = (Inl (NotFound (NO_REPOSITORY_MSG (klass_qualname self))), st)"
  by (simp add: insert_repo_def)

lemma insert_repo_own_bucket:
  assumes "REGISTERS st (klass_qualname self) = Some b"
  shows "REGISTERS (snd (insert_repo self obj st)) (klass_qualname self)
           = Some (AList.update (get_id self obj) obj b)"
  using assms
  by (simp add: insert_repo_unfold fan_out_keeps_present AList.update_conv')

subsection \<open>What an insert does to the shared state\<close>

lemma defaultdict_getitem_Some:
  "d q = Some v \<Longrightarrow> defaultdict_getitem d q = (v, d)"
  by (simp add: defaultdict_getitem_def)

lemma defaultdict_getitem_keeps:
  "d a = Some v \<Longrightarrow> snd (defaultdict_getitem d q) a = Some v"
  by (auto simp: defaultdict_getitem_def split: option.splits)

lemma defaultdict_getitem_new:
  "snd (defaultdict_getitem d q) a = Some v \<Longrightarrow> d a = Some v \<or> v = []"
  by (auto simp: defaultdict_getitem_def split: option.splits if_splits)

lemma insert_repo_conflict:
  assumes own: "REGISTERS st (klass_qualname self) \<noteq> None"
      and sup: "SUPER_KLASSES_WITH_REPO st (klass_qualname self) = Some supers"
      and bs: "list_all (\<lambda>a. REGISTERS st a \<noteq> None) supers"
      and key: "\<exists>a\<in>set supers. has_key (REGISTERS st) a (get_id self obj)"
  shows "fst (insert_repo self obj st) = Inl AssertionError"
proof -
  from own obtain b where b: "REGISTERS st (klass_qualname self) = Some b" by auto
  let ?i = "get_id self obj"
  let ?R = "(REGISTERS st)(klass_qualname self \<mapsto> AList.update ?i obj b)"
  have 1: "list_all (\<lambda>a. ?R a \<noteq> None) supers"
    using bs by (simp add: list_all_iff)
  from key obtain a where a: "a \<in> set supers" "has_key (REGISTERS st) a ?i" by blast
  then have "has_key ?R a ?i"
    by (simp add: has_key_def AList.update_conv')
  with a have 2: "\<exists>a\<in>set supers. has_key ?R a ?i" by blast
  have "fst (fan_out supers ?i obj ?R) = Inl AssertionError"
    using 1 2 by (rule fan_out_conflict)
  then show ?thesis
    by (simp add: insert_repo_unfold [OF b] defaultdict_getitem_def sup)
qed

lemma insert_repo_REGISTERS_dom:
  "(REGISTERS (snd (insert_repo self obj st)) a = None) = (REGISTERS st a = None)"
proof (cases "REGISTERS st (klass_qualname self)")
  case None
  then show ?thesis by (simp add: insert_repo_no_bucket)
next
  case (Some b)
  then show ?thesis by (auto simp: insert_repo_unfold [OF Some] fan_out_dom)
qed

lemma insert_repo_SUPER_keeps:
  "SUPER_KLASSES_WITH_REPO st a = Some l \<Longrightarrow>
     SUPER_KLASSES_WITH_REPO (snd (insert_repo self obj st)) a = Some l"
proof (cases "REGISTERS st (klass_qualname self)")
  case None
  assume "SUPER_KLASSES_WITH_REPO st a = Some l"
  with None show ?thesis by (simp add: insert_repo_no_bucket)
next
  case (Some b)
  assume "SUPER_KLASSES_WITH_REPO st a = Some l"
  then show ?thesis
    by (simp add: insert_repo_unfold [OF Some] defaultdict_getitem_keeps)
qed

lemma insert_repo_SUPER_new:
  "SUPER_KLASSES_WITH_REPO (snd (insert_repo self obj st)) a = Some l \<Longrightarrow>
     SUPER_KLASSES_WITH_REPO st a = Some l \<or> l = []"
proof (cases "REGISTERS st (klass_qualname self)")
  case None
  assume "SUPER_KLASSES_WITH_REPO (snd (insert_repo self obj st)) a = Some l"
  with None show ?thesis by (simp add: insert_repo_no_bucket)
next
  case (Some b)
  assume "SUPER_KLASSES_WITH_REPO (snd (insert_repo self obj st)) a = Some l"
  then show ?thesis
    by (simp add: insert_repo_unfold [OF Some] defaultdict_getitem_new)
qed

subsection \<open>Sequences of calls\<close>

lemma error_catcher_state: "snd (error_catcher cs f x st) = snd (f x st)"
  by (simp add: error_catcher_def split: prod.splits sum.splits)

lemma insert_each_Cons:
  "insert_each self (obj # objs) st = insert_each self objs (snd (insert_repo self obj st))"
  by (simp add: insert_each_def)

lemma batch_loop_Cons:
  "batch_loop self (obj # objs) acc st =
     (case fst (error_catcher [AssertionError_class, NotFound_class] (insert_repo self) obj st) of
        Inl e \<Rightarrow>
          (Inl e,
           snd (error_catcher [AssertionError_class, NotFound_class] (insert_repo self) obj st))
      | Inr ok \<Rightarrow>
          batch_loop self objs (AList.update (get_id self obj) ok acc)
            (snd (error_catcher [AssertionError_class, NotFound_class] (insert_repo self) obj st)))"
  by (cases "error_catcher [AssertionError_class, NotFound_class] (insert_repo self) obj st")
     (simp split: sum.splits)

lemma batch_loop_state:
  "\<exists>n. snd (batch_loop self objs acc st) = insert_each self (take n objs) st"
proof (induction objs arbitrary: acc st)
  case Nil
  then show ?case by (simp add: insert_each_def)
next
  case (Cons obj objs)
  let ?r = "error_catcher [AssertionError_class, NotFound_class] (insert_repo self) obj st"
  have st: "snd ?r = snd (insert_repo self obj st)" by (rule error_catcher_state)
  show ?case
  proof (cases "fst ?r")
    case (Inl e)
    then have "snd (batch_loop self (obj # objs) acc st) = snd ?r"
      by (simp only: batch_loop_Cons sum.case snd_conv)
    then have "snd (batch_loop self (obj # objs) acc st)
                 = insert_each self (take 1 (obj # objs)) st"
      using st by (simp add: insert_each_def)
    then show ?thesis by blast
  next
    case (Inr ok)
    then have "snd (batch_loop self (obj # objs) acc st)
                 = snd (batch_loop self objs (AList.update (get_id self obj) ok acc)
                          (snd (insert_repo self obj st)))"
      using st by (simp only: batch_loop_Cons sum.case)
    moreover from Cons.IH obtain n where
      "snd (batch_loop self objs (AList.update (get_id self obj) ok acc)
              (snd (insert_repo self obj st)))
         = insert_each self (take n objs) (snd (insert_repo self obj st))"
      by blast
    ultimately have "snd (batch_loop self (obj # objs) acc st)
                       = insert_each self (take (Suc n) (obj # objs)) st"
      by (simp add: insert_each_Cons)
    then show ?thesis by blast
  qed
qed

lemma insert_each_SUPER_keeps:
  "SUPER_KLASSES_WITH_REPO st a = Some l \<Longrightarrow>
     SUPER_KLASSES_WITH_REPO (insert_each self objs st) a = Some l"
  by (induction objs arbitrary: st) (simp_all add: insert_each_def insert_repo_SUPER_keeps)

lemma insert_each_SUPER_new:
  "SUPER_KLASSES_WITH_REPO (insert_each self objs st) a = Some l \<Longrightarrow>
     SUPER_KLASSES_WITH_REPO st a = Some l \<or> l = []"
proof (induction objs arbitrary: st)
  case Nil
  then show ?case by (simp add: insert_each_def)
next
  case (Cons obj objs)
  from Cons.prems have
    "SUPER_KLASSES_WITH_REPO (insert_each self objs (snd (insert_repo self obj st))) a = Some l"
    by (simp add: insert_each_Cons)
  from Cons.IH [OF this] show ?case
    by (auto dest: insert_repo_SUPER_new)
qed

lemma insert_each_REGISTERS_dom:
  "(REGISTERS (insert_each self objs st) a = None) = (REGISTERS st a = None)"
  by (induction objs arbitrary: st) (simp_all add: insert_each_def insert_repo_REGISTERS_dom)

lemma step_SUPER_keeps:
  "SUPER_KLASSES_WITH_REPO st a = Some l \<Longrightarrow> SUPER_KLASSES_WITH_REPO (step c st) a = Some l"
proof (cases c)
  case (Batch_update self objs)
  assume "SUPER_KLASSES_WITH_REPO st a = Some l"
  moreover obtain n where "snd (batch_loop self objs [] st) = insert_each self (take n objs) st"
    using batch_loop_state by blast
  ultimately show ?thesis
    using Batch_update by (simp add: batch_update_def insert_each_SUPER_keeps)
qed (auto simp: init_def Let_def register_klass_def clear_all_repos_def insert_repo_SUPER_keeps
       update_repo_def remove_repo_def pop_def split: option.splits)

lemma run_SUPER_keeps:
  "SUPER_KLASSES_WITH_REPO st a = Some l \<Longrightarrow> SUPER_KLASSES_WITH_REPO (run calls st) a = Some l"
  by (induction calls arbitrary: st) (simp_all add: run_def step_SUPER_keeps)

lemma step_REGISTERS_mono:
  "REGISTERS st a \<noteq> None \<Longrightarrow> REGISTERS (step c st) a \<noteq> None"
proof (cases c)
  case (Batch_update self objs)
  assume "REGISTERS st a \<noteq> None"
  moreover obtain n where "snd (batch_loop self objs [] st) = insert_each self (take n objs) st"
    using batch_loop_state by blast
  ultimately show ?thesis
    using Batch_update by (simp add: batch_update_def insert_each_REGISTERS_dom)
next
  case (Insert self obj)
  assume "REGISTERS st a \<noteq> None"
  then show ?thesis using Insert by (simp add: insert_repo_REGISTERS_dom)
qed (auto simp: init_def Let_def register_klass_def clear_all_repos_def
       update_repo_def remove_repo_def pop_def split: option.splits)

lemma step_SUPER_new:
  "SUPER_KLASSES_WITH_REPO (step c st) a = Some l \<Longrightarrow>
     SUPER_KLASSES_WITH_REPO st a = Some l \<or> list_all (\<lambda>a. REGISTERS st a \<noteq> None) l"
proof (cases c)
  case (Batch_update self objs)
  assume l: "SUPER_KLASSES_WITH_REPO (step c st) a = Some l"
  obtain n where "snd (batch_loop self objs [] st) = insert_each self (take n objs) st"
    using batch_loop_state by blast
  with l Batch_update
  have "SUPER_KLASSES_WITH_REPO (insert_each self (take n objs) st) a = Some l"
    by (simp add: batch_update_def)
  then show ?thesis by (auto dest: insert_each_SUPER_new)
next
  case (Insert self obj)
  assume "SUPER_KLASSES_WITH_REPO (step c st) a = Some l"
  with Insert show ?thesis by (auto dest: insert_repo_SUPER_new)
next
  case (Init k gid)
  assume "SUPER_KLASSES_WITH_REPO (step c st) a = Some l"
  with Init show ?thesis
    by (auto simp: init_def Let_def find_super_repos_def list_all_iff split: if_splits)
qed (auto simp: register_klass_def clear_all_repos_def
       update_repo_def remove_repo_def pop_def Let_def split: option.splits)

lemma step_supers_have_buckets:
  assumes "supers_have_buckets q st"
  shows "supers_have_buckets q (step c st)"
proof (cases "SUPER_KLASSES_WITH_REPO (step c st) q")
  case None
  then show ?thesis by (simp add: supers_have_buckets_def)
next
  case (Some l)
  from step_SUPER_new [OF Some] assms have l: "list_all (\<lambda>a. REGISTERS st a \<noteq> None) l"
    by (auto simp: supers_have_buckets_def)
  have "\<forall>a\<in>set l. REGISTERS (step c st) a \<noteq> None"
  proof
    fix a assume "a \<in> set l"
    with l have "REGISTERS st a \<noteq> None" by (simp add: list_all_iff)
    then show "REGISTERS (step c st) a \<noteq> None" by (rule step_REGISTERS_mono)
  qed
  with Some show ?thesis by (simp add: supers_have_buckets_def list_all_iff)
qed

lemma run_supers_have_buckets:
  "supers_have_buckets q st \<Longrightarrow> supers_have_buckets q (run calls st)"
  by (induction calls arbitrary: st) (simp_all add: run_def step_supers_have_buckets)

lemma reachable_supers_have_buckets:
  "supers_have_buckets q
     (run calls \<lparr>REGISTERS = Map.empty, SUPER_KLASSES_WITH_REPO = Map.empty\<rparr>)"
  by (rule run_supers_have_buckets) (simp add: supers_have_buckets_def)

lemma init_repository:
  "klass_qualname (fst (init k gid st)) = get_dotted_path k"
  "get_id (fst (init k gid st)) = gid"
  "klass (fst (init k gid st)) = k"
  by (simp_all add: init_def Let_def)

lemma init_own_bucket: "REGISTERS (snd (init k gid st)) (get_dotted_path k) \<noteq> None"
  by (simp add: init_def Let_def)

lemma init_first_SUPER:
  assumes "SUPER_KLASSES_WITH_REPO st (get_dotted_path k) = None"
  shows "SUPER_KLASSES_WITH_REPO (snd (init k gid st)) (get_dotted_path k)
           = Some [get_dotted_path c. c \<leftarrow> mro k, REGISTERS st (get_dotted_path c) \<noteq> None]"
  using assms by (simp add: init_def Let_def find_super_repos_def)

subsection \<open>The list cached by the first construction\<close>

lemma init_SUPER_from_mro:
  assumes "SUPER_KLASSES_WITH_REPO st (get_dotted_path k) = None"
      and "SUPER_KLASSES_WITH_REPO (snd (init k gid st)) (get_dotted_path k) = Some l"
      and "a \<in> set l"
  shows "a \<in> get_dotted_path ` set (mro k) \<and> REGISTERS st a \<noteq> None"
  using assms by (auto simp: init_first_SUPER)

lemma init_SUPER_own_identifier:
  assumes "SUPER_KLASSES_WITH_REPO st (get_dotted_path k) = None"
      and "REGISTERS st (get_dotted_path k) \<noteq> None"
  shows "\<exists>l. SUPER_KLASSES_WITH_REPO (snd (init k gid st)) (get_dotted_path k)
               = Some (get_dotted_path k # l)"
  using assms by (simp add: init_first_SUPER mro_def)

subsection \<open>The batch loop\<close>

lemma insert_repo_result:
  assumes "supers_have_buckets (klass_qualname self) st"
  shows "fst (insert_repo self obj st) = Inr True
         \<or> fst (insert_repo self obj st) = Inl AssertionError
         \<or> fst (insert_repo self obj st) = Inl (NotFound (NO_REPOSITORY_MSG (klass_qualname self)))"
proof (cases "REGISTERS st (klass_qualname self)")
  case None
  then show ?thesis by (simp add: insert_repo_no_bucket)
next
  case (Some b)
  let ?supers = "fst (defaultdict_getitem (SUPER_KLASSES_WITH_REPO st) (klass_qualname self))"
  let ?R = "(REGISTERS st)(klass_qualname self \<mapsto> AList.update (get_id self obj) obj b)"
  have "list_all (\<lambda>a. REGISTERS st a \<noteq> None) ?supers"
    using assms
    by (auto simp: supers_have_buckets_def defaultdict_getitem_def split: option.splits)
  then have "list_all (\<lambda>a. ?R a \<noteq> None) ?supers"
    by (simp add: list_all_iff)
  then have "fst (fan_out ?supers (get_id self obj) obj ?R) = Inr True
             \<or> fst (fan_out ?supers (get_id self obj) obj ?R) = Inl AssertionError"
    by (rule fan_out_result)
  then show ?thesis
    unfolding insert_repo_unfold [OF Some] fst_conv by blast
qed

lemma error_catcher_insert_repo:
  assumes "supers_have_buckets (klass_qualname self) st"
  shows "error_catcher [AssertionError_class, NotFound_class] (insert_repo self) obj st
           = (Inr (fst (insert_repo self obj st) = Inr True), snd (insert_repo self obj st))"
  using insert_repo_result [OF assms, of obj]
  by (cases "insert_repo self obj st") (auto simp: error_catcher_def)

lemma insert_repo_supers_have_buckets:
  "supers_have_buckets q st \<Longrightarrow> supers_have_buckets q (snd (insert_repo self obj st))"
  using step_supers_have_buckets [of q st "Insert self obj"] by simp

lemma batch_loop_eq:
  "supers_have_buckets (klass_qualname self) st \<Longrightarrow>
     batch_loop self objs acc st
       = (Inr (record_all acc (outcomes self objs st)), insert_each self objs st)"
proof (induction objs arbitrary: acc st)
  case Nil
  then show ?case by (simp add: record_all_def insert_each_def)
next
  case (Cons obj objs)
  have "supers_have_buckets (klass_qualname self) (snd (insert_repo self obj st))"
    using Cons.prems by (rule insert_repo_supers_have_buckets)
  from Cons.IH [OF this] show ?case
    by (simp add: error_catcher_insert_repo [OF Cons.prems] record_all_def insert_each_def)
qed

lemma record_all_Cons:
  "record_all acc ((k, v) # kvs) = record_all (AList.update k v acc) kvs"
  by (simp add: record_all_def)

lemma record_all_keys: "fst ` set (record_all acc kvs) = fst ` set acc \<union> fst ` set kvs"
proof (induction kvs arbitrary: acc)
  case Nil
  then show ?case by (simp add: record_all_def)
next
  case (Cons kv kvs)
  obtain k v where kv: "kv = (k, v)" by (cases kv)
  show ?case
    unfolding kv record_all_Cons Cons.IH by (auto simp: AList.dom_update)
qed

lemma record_all_distinct:
  "distinct (map fst acc) \<Longrightarrow> distinct (map fst (record_all acc kvs))"
proof (induction kvs arbitrary: acc)
  case Nil
  then show ?case by (simp add: record_all_def)
next
  case (Cons kv kvs)
  obtain k v where kv: "kv = (k, v)" by (cases kv)
  show ?case
    unfolding kv record_all_Cons using Cons.prems
    by (intro Cons.IH AList.distinct_update)
qed

lemma record_all_map_of:
  "map_of (record_all acc kvs) = map_of acc ++ map_of (rev kvs)"
proof (induction kvs arbitrary: acc)
  case Nil
  then show ?case by (simp add: record_all_def)
next
  case (Cons kv kvs)
  obtain k v where kv: "kv = (k, v)" by (cases kv)
  have "map_of (AList.update k v acc) ++ map_of (rev kvs)
          = map_of acc ++ (map_of [(k, v)] ++ map_of (rev kvs))"
    by (simp add: AList.update_conv' fun_eq_iff map_add_def split: option.splits)
  then show ?case
    unfolding kv record_all_Cons Cons.IH by simp
qed

lemma outcomes_keys: "map fst (outcomes self objs st) = map (get_id self) objs"
  by (induction objs arbitrary: st) simp_all

lemma insert_each_append:
  "insert_each self (xs @ ys) st = insert_each self ys (insert_each self xs st)"
  by (simp add: insert_each_def)

lemma outcomes_append:
  "outcomes self (xs @ ys) st = outcomes self xs st @ outcomes self ys (insert_each self xs st)"
  by (induction xs arbitrary: st) (simp_all add: insert_each_def)

lemma record_all_last_outcome:
  assumes "get_id self obj \<notin> get_id self ` set post"
  shows "map_of (record_all [] (outcomes self (pre @ obj # post) st)) (get_id self obj)
           = Some (fst (insert_repo self obj (insert_each self pre st)) = Inr True)"
proof -
  let ?st = "insert_each self pre st"
  have "get_id self obj \<notin> set (map fst (outcomes self post (snd (insert_repo self obj ?st))))"
    using assms by (simp add: outcomes_keys)
  then have "map_of (rev (outcomes self post (snd (insert_repo self obj ?st)))) (get_id self obj)
               = None"
    by (simp add: map_of_eq_None_iff)
  then show ?thesis
    by (simp add: record_all_map_of outcomes_append map_add_def)
qed

subsection \<open>Objects of other ids do not matter to an insert\<close>

lemma same_keys_refl: "same_keys i R R"
  by (simp add: same_keys_def)

lemma same_keys_sym: "same_keys i R R' \<Longrightarrow> same_keys i R' R"
  by (simp add: same_keys_def)

lemma same_keys_trans: "same_keys i R R' \<Longrightarrow> same_keys i R' R'' \<Longrightarrow> same_keys i R R''"
  by (simp add: same_keys_def)

lemma same_keys_bucket:
  assumes "same_keys i R R'" and "R q = Some b"
  obtains b' where "R' q = Some b'"
proof -
  from assms(1) have "(R q = None) = (R' q = None)"
    unfolding same_keys_def by blast
  with assms(2) show ?thesis using that by (cases "R' q") auto
qed

lemma same_keys_store:
  assumes "same_keys i R R'" and "R q = Some b" and "R' q = Some b'"
  shows "same_keys i (R(q \<mapsto> AList.update i obj b)) (R'(q \<mapsto> AList.update i obj' b'))"
  using assms by (simp add: same_keys_def has_key_def AList.update_conv')

lemma same_keys_store_other:
  assumes "R q = Some b" and "j \<noteq> i"
  shows "same_keys i R (R(q \<mapsto> AList.update j obj b))"
  using assms by (simp add: same_keys_def has_key_def AList.update_conv')

lemma fan_out_same_keys:
  "same_keys i R R' \<Longrightarrow>
     fst (fan_out qs i obj R) = fst (fan_out qs i obj R')
     \<and> same_keys i (snd (fan_out qs i obj R)) (snd (fan_out qs i obj R'))"
proof (induction qs arbitrary: R R')
  case Nil
  then show ?case by simp
next
  case (Cons q qs)
  show ?case
  proof (cases "R q")
    case None
    with Cons.prems have "R' q = None" by (simp add: same_keys_def)
    with None Cons.prems show ?thesis by simp
  next
    case (Some b)
    with Cons.prems obtain b' where b': "R' q = Some b'" by (rule same_keys_bucket)
    from Cons.prems have "has_key R q i = has_key R' q i"
      unfolding same_keys_def by blast
    with Some b' have k: "(map_of b i = None) = (map_of b' i = None)"
      by (auto simp: has_key_def)
    show ?thesis
    proof (cases "map_of b i = None")
      case False
      with k Some b' Cons.prems show ?thesis by simp
    next
      case True
      let ?R = "R(q \<mapsto> AList.update i obj b)" and ?R' = "R'(q \<mapsto> AList.update i obj b')"
      from Cons.prems Some b' have "same_keys i ?R ?R'"
        by (rule same_keys_store)
      then have "fst (fan_out qs i obj ?R) = fst (fan_out qs i obj ?R')
                 \<and> same_keys i (snd (fan_out qs i obj ?R)) (snd (fan_out qs i obj ?R'))"
        by (rule Cons.IH)
      with True k Some b' show ?thesis by simp
    qed
  qed
qed

lemma fan_out_other_key:
  "j \<noteq> i \<Longrightarrow> same_keys i R (snd (fan_out qs j obj R))"
proof (induction qs arbitrary: R)
  case Nil
  then show ?case by (simp add: same_keys_refl)
next
  case (Cons q qs)
  show ?case
  proof (cases "R q")
    case None
    then show ?thesis by (simp add: same_keys_refl)
  next
    case (Some b)
    show ?thesis
    proof (cases "map_of b j = None")
      case False
      with Some show ?thesis by (simp add: same_keys_refl)
    next
      case True
      have "same_keys i R (R(q \<mapsto> AList.update j obj b))"
        using Some Cons.prems by (rule same_keys_store_other)
      moreover have "same_keys i (R(q \<mapsto> AList.update j obj b))
                       (snd (fan_out qs j obj (R(q \<mapsto> AList.update j obj b))))"
        using Cons.prems by (rule Cons.IH)
      ultimately have "same_keys i R (snd (fan_out qs j obj (R(q \<mapsto> AList.update j obj b))))"
        by (rule same_keys_trans)
      with Some True show ?thesis by simp
    qed
  qed
qed

lemma defaultdict_getitem_again:
  "fst (defaultdict_getitem (snd (defaultdict_getitem d q)) q) = fst (defaultdict_getitem d q)"
  by (simp add: defaultdict_getitem_def split: option.splits)

lemma agree_on_refl: "agree_on i q st st"
  by (simp add: agree_on_def same_keys_refl)

lemma agree_on_trans: "agree_on i q st st' \<Longrightarrow> agree_on i q st' st'' \<Longrightarrow> agree_on i q st st''"
  by (auto simp: agree_on_def intro: same_keys_trans)

lemma insert_repo_other_id:
  assumes "get_id self obj \<noteq> i"
  shows "agree_on i (klass_qualname self) st (snd (insert_repo self obj st))"
proof (cases "REGISTERS st (klass_qualname self)")
  case None
  then show ?thesis by (simp add: insert_repo_no_bucket agree_on_refl)
next
  case (Some b)
  let ?R = "(REGISTERS st)(klass_qualname self \<mapsto> AList.update (get_id self obj) obj b)"
  let ?supers = "fst (defaultdict_getitem (SUPER_KLASSES_WITH_REPO st) (klass_qualname self))"
  have "same_keys i (REGISTERS st) ?R"
    using Some assms by (rule same_keys_store_other)
  moreover have "same_keys i ?R (snd (fan_out ?supers (get_id self obj) obj ?R))"
    using assms by (rule fan_out_other_key)
  ultimately have "same_keys i (REGISTERS st) (snd (fan_out ?supers (get_id self obj) obj ?R))"
    by (rule same_keys_trans)
  then show ?thesis
    by (simp add: agree_on_def insert_repo_unfold [OF Some] defaultdict_getitem_again)
qed

lemma insert_repo_same_id:
  assumes agree: "agree_on (get_id self obj) (klass_qualname self) st st'"
  shows "fst (insert_repo self obj st) = fst (insert_repo self obj st')
         \<and> agree_on (get_id self obj) (klass_qualname self)
             (snd (insert_repo self obj st)) (snd (insert_repo self obj st'))"
proof (cases "REGISTERS st (klass_qualname self)")
  case None
  with agree have "REGISTERS st' (klass_qualname self) = None"
    by (simp add: agree_on_def same_keys_def)
  with None agree show ?thesis by (simp add: insert_repo_no_bucket)
next
  case (Some b)
  from agree have "same_keys (get_id self obj) (REGISTERS st) (REGISTERS st')"
    by (simp add: agree_on_def)
  from this Some obtain b' where b': "REGISTERS st' (klass_qualname self) = Some b'"
    by (rule same_keys_bucket)
  let ?i = "get_id self obj"
  let ?supers = "fst (defaultdict_getitem (SUPER_KLASSES_WITH_REPO st) (klass_qualname self))"
  have supers: "fst (defaultdict_getitem (SUPER_KLASSES_WITH_REPO st') (klass_qualname self))
                  = ?supers"
    using agree by (simp add: agree_on_def)
  let ?R = "(REGISTERS st)(klass_qualname self \<mapsto> AList.update ?i obj b)"
  let ?R' = "(REGISTERS st')(klass_qualname self \<mapsto> AList.update ?i obj b')"
  have "same_keys ?i (REGISTERS st) (REGISTERS st')"
    using agree by (simp add: agree_on_def)
  then have "same_keys ?i ?R ?R'"
    using Some b' by (rule same_keys_store)
  then have "fst (fan_out ?supers ?i obj ?R) = fst (fan_out ?supers ?i obj ?R')
             \<and> same_keys ?i (snd (fan_out ?supers ?i obj ?R)) (snd (fan_out ?supers ?i obj ?R'))"
    by (rule fan_out_same_keys)
  then show ?thesis
    unfolding insert_repo_unfold [OF Some] insert_repo_unfold [OF b'] supers
    by (simp add: agree_on_def defaultdict_getitem_again supers)
qed

lemma insert_each_same_id_only:
  "agree_on i (klass_qualname self) st st' \<Longrightarrow>
     agree_on i (klass_qualname self) (insert_each self objs st)
       (insert_each self [obj \<leftarrow> objs. get_id self obj = i] st')"
proof (induction objs arbitrary: st st')
  case Nil
  then show ?case by (simp add: insert_each_def)
next
  case (Cons obj objs)
  show ?case
  proof (cases "get_id self obj = i")
    case True
    with Cons.prems
    have "agree_on i (klass_qualname self)
            (snd (insert_repo self obj st)) (snd (insert_repo self obj st'))"
      using insert_repo_same_id [of self obj st st'] by simp
    from Cons.IH [OF this] True show ?thesis by (simp add: insert_each_Cons)
  next
    case False
    have "agree_on i (klass_qualname self) (snd (insert_repo self obj st)) st'"
    proof -
      have "agree_on i (klass_qualname self) st (snd (insert_repo self obj st))"
        using False by (rule insert_repo_other_id)
      with Cons.prems show ?thesis
        by (auto simp: agree_on_def intro: same_keys_trans same_keys_sym)
    qed
    from Cons.IH [OF this] False show ?thesis by (simp add: insert_each_Cons)
  qed
qed

lemma insert_repo_after_other_ids:
  "fst (insert_repo self obj (insert_each self pre st))
     = fst (insert_repo self obj
              (insert_each self [o' \<leftarrow> pre. get_id self o' = get_id self obj] st))"
  using insert_each_same_id_only [OF agree_on_refl, of "get_id self obj" self pre st]
        insert_repo_same_id [of self obj] by blast

lemma record_all_outcomes_keys:
  "fst ` set (record_all [] (outcomes self objs st)) = get_id self ` set objs"
proof -
  have "fst ` set (outcomes self objs st) = set (map fst (outcomes self objs st))"
    by simp
  also have "\<dots> = set (map (get_id self) objs)"
    by (simp only: outcomes_keys)
  finally show ?thesis
    by (simp add: record_all_keys)
qed

lemma zoo_supers_have_buckets:
  "supers_have_buckets (klass_qualname dog_repo) zoo"
  "supers_have_buckets (klass_qualname dog_repo) zoo_rex"
  by (simp_all add: supers_have_buckets_def dog_repo_def zoo_SUPER zoo_REGISTERS
        zoo_rex_SUPER zoo_rex_REGISTERS)

subsection \<open>When an insert returns\<close>

lemma fan_out_returns:
  "list_all (\<lambda>a. R a \<noteq> None) qs \<Longrightarrow> distinct qs \<Longrightarrow>
     \<forall>a\<in>set qs. \<not> has_key R a i \<Longrightarrow> fst (fan_out qs i obj R) = Inr True"
proof (induction qs arbitrary: R)
  case Nil
  then show ?case by simp
next
  case (Cons q qs)
  then obtain b where b: "R q = Some b" by auto
  with Cons.prems(3) have free: "map_of b i = None"
    by (auto simp: has_key_def)
  let ?R = "R(q \<mapsto> AList.update i obj b)"
  have 1: "list_all (\<lambda>a. ?R a \<noteq> None) qs"
    using Cons.prems(1) by (simp add: list_all_iff)
  have 2: "distinct qs" using Cons.prems(2) by simp
  have 3: "\<forall>a\<in>set qs. \<not> has_key ?R a i"
    using Cons.prems(2,3) by (auto simp: has_key_def)
  have "fst (fan_out qs i obj ?R) = Inr True"
    using 1 2 3 by (rule Cons.IH)
  with b free show ?case by simp
qed

lemma insert_repo_returns:
  assumes own: "REGISTERS st (klass_qualname self) \<noteq> None"
      and sup: "SUPER_KLASSES_WITH_REPO st (klass_qualname self) = Some supers"
      and bs: "list_all (\<lambda>a. REGISTERS st a \<noteq> None) supers"
      and strict: "klass_qualname self \<notin> set supers" and dist: "distinct supers"
      and free: "\<forall>a\<in>set supers. \<not> has_key (REGISTERS st) a (get_id self obj)"
  shows "fst (insert_repo self obj st) = Inr True"
proof -
  from own obtain b where b: "REGISTERS st (klass_qualname self) = Some b" by auto
  let ?i = "get_id self obj"
  let ?R = "(REGISTERS st)(klass_qualname self \<mapsto> AList.update ?i obj b)"
  have 1: "list_all (\<lambda>a. ?R a \<noteq> None) supers"
    using bs by (simp add: list_all_iff)
  have 3: "\<forall>a\<in>set supers. \<not> has_key ?R a ?i"
    using free strict by (auto simp: has_key_def)
  have "fst (fan_out supers ?i obj ?R) = Inr True"
    using 1 dist 3 by (rule fan_out_returns)
  then show ?thesis
    by (simp add: insert_repo_unfold [OF b] defaultdict_getitem_def sup)
qed

section \<open>Properties of the repository\<close>

text \<open>
  C5. When \<^verbatim>\<open>insert(obj)\<close> returns \<open>True\<close>, \<^verbatim>\<open>get\<close> of the extracted id on the
  same repository returns \<open>obj\<close> and \<^verbatim>\<open>exists\<close> of that id returns \<open>True\<close>. The
  insert returns \<open>True\<close> whenever the id is a key of no bucket of the cached list and
  the list holds strict ancestors only (\<open>insert_repo_returns\<close>).
\<close>

theorem insert_then_get_and_exists:
  assumes "insert_repo self obj st = (Inr True, st')"
  shows "get self (get_id self obj) st' = Inr obj \<and> exists self (get_id self obj) st' = Inr True"
proof -
  from assms obtain b where b: "REGISTERS st (klass_qualname self) = Some b"
    by (cases "REGISTERS st (klass_qualname self)") (auto simp: insert_repo_no_bucket)
  have "REGISTERS st' (klass_qualname self) = Some (AList.update (get_id self obj) obj b)"
    using insert_repo_own_bucket [OF b, of obj] assms by simp
  then show ?thesis
    by (simp add: get_def exists_def AList.update_conv')
qed

theorem insert_then_get_and_exists_witness:
  "insert_repo dog_repo rex zoo = (Inr True, zoo_rex)
   \<and> get dog_repo (get_id dog_repo rex) zoo_rex = Inr rex
   \<and> exists dog_repo (get_id dog_repo rex) zoo_rex = Inr True"
  using insert_then_get_and_exists [OF insert_rex_zoo] insert_rex_zoo by simp

text \<open>
  C6. \<^verbatim>\<open>update\<close>, \<^verbatim>\<open>remove\<close> and \<^verbatim>\<open>pop\<close> leave the bucket of every other class as
  it is, and in the repository's own bucket they leave every entry but the addressed one as it
  is; \<^verbatim>\<open>update\<close> stores the object under its id, \<^verbatim>\<open>remove\<close> and \<^verbatim>\<open>pop\<close>
  delete the entry of the id. None of them touches the cached ancestor lists or adds or drops
  a bucket.
\<close>

theorem non_insert_mutations_frame:
  "(q \<noteq> klass_qualname self \<longrightarrow>
      REGISTERS (snd (update_repo self obj st)) q = REGISTERS st q
      \<and> REGISTERS (snd (remove_repo self obj st)) q = REGISTERS st q
      \<and> REGISTERS (snd (pop self i st)) q = REGISTERS st q)
   \<and> (j \<noteq> get_id self obj \<longrightarrow>
      entry (snd (update_repo self obj st)) (klass_qualname self) j = entry st (klass_qualname self) j
      \<and> entry (snd (remove_repo self obj st)) (klass_qualname self) j
          = entry st (klass_qualname self) j)
   \<and> (j \<noteq> i \<longrightarrow>
      entry (snd (pop self i st)) (klass_qualname self) j = entry st (klass_qualname self) j)
   \<and> (fst (update_repo self obj st) = Inr True \<longrightarrow>
      entry (snd (update_repo self obj st)) (klass_qualname self) (get_id self obj) = Some obj)
   \<and> (fst (remove_repo self obj st) = Inr () \<longrightarrow>
      entry (snd (remove_repo self obj st)) (klass_qualname self) (get_id self obj) = None)
   \<and> (fst (pop self i st) = Inr v \<longrightarrow>
      entry st (klass_qualname self) i = Some v
      \<and> entry (snd (pop self i st)) (klass_qualname self) i = None)
   \<and> (REGISTERS (snd (update_repo self obj st)) q = None \<longleftrightarrow> REGISTERS st q = None)
   \<and> (REGISTERS (snd (remove_repo self obj st)) q = None \<longleftrightarrow> REGISTERS st q = None)
   \<and> (REGISTERS (snd (pop self i st)) q = None \<longleftrightarrow> REGISTERS st q = None)
   \<and> SUPER_KLASSES_WITH_REPO (snd (update_repo self obj st)) = SUPER_KLASSES_WITH_REPO st
   \<and> SUPER_KLASSES_WITH_REPO (snd (remove_repo self obj st)) = SUPER_KLASSES_WITH_REPO st
   \<and> SUPER_KLASSES_WITH_REPO (snd (pop self i st)) = SUPER_KLASSES_WITH_REPO st"
  by (auto simp: update_repo_def remove_repo_def pop_def entry_def Let_def
        AList.update_conv' AList.delete_conv' split: option.splits)

theorem non_insert_mutations_frame_witness:
  "''zoo.Animal'' \<noteq> klass_qualname dog_repo
   \<and> (2::nat) \<noteq> get_id dog_repo rex \<and> (2::nat) \<noteq> 1
   \<and> fst (update_repo dog_repo (1, ''Max'') zoo_rex) = Inr True
   \<and> fst (remove_repo dog_repo (1, ''Max'') zoo_rex) = Inr ()
   \<and> fst (pop dog_repo 1 zoo_rex) = Inr rex
   \<and> REGISTERS (snd (update_repo dog_repo (1, ''Max'') zoo_rex)) ''zoo.Animal'' = Some [(1, rex)]
   \<and> REGISTERS (snd (remove_repo dog_repo (1, ''Max'') zoo_rex)) ''zoo.Animal'' = Some [(1, rex)]
   \<and> REGISTERS (snd (pop dog_repo 1 zoo_rex)) ''zoo.Animal'' = Some [(1, rex)]
   \<and> entry (snd (update_repo dog_repo (1, ''Max'') zoo_rex)) ''zoo.Dog'' 1 = Some (1, ''Max'')
   \<and> entry (snd (remove_repo dog_repo (1, ''Max'') zoo_rex)) ''zoo.Dog'' 1 = None
   \<and> entry (snd (pop dog_repo 1 zoo_rex)) ''zoo.Dog'' 1 = None
   \<and> entry (snd (pop dog_repo 1 zoo_rex)) ''zoo.Dog'' 2 = entry zoo_rex ''zoo.Dog'' 2"
  using non_insert_mutations_frame
          [of "''zoo.Animal''" dog_repo "(1, ''Max'')" zoo_rex 1 2 rex]
  by (simp add: update_repo_def remove_repo_def pop_def entry_def zoo_rex_REGISTERS
        dog_repo_def rex_def)

text \<open>
  C8. After \<^verbatim>\<open>register_klass(C)\<close> the bucket of \<open>C\<close> exists and is empty, whatever
  the registry held before, so a second call changes nothing and a call on a class whose
  bucket holds objects drops them. The class is returned as it was given.
\<close>

theorem register_klass_resets_bucket:
  "REGISTERS (snd (register_klass C st)) (get_dotted_path C) = Some []
   \<and> snd (register_klass C (snd (register_klass C st))) = snd (register_klass C st)
   \<and> fst (register_klass C st) = C"
  by (simp add: register_klass_def)

text \<open>
  C9. On a repository whose bucket exists, \<^verbatim>\<open>count(predicate)\<close> is the length of the
  list that \<^verbatim>\<open>filter(predicate)\<close> returns on the same state, and \<^verbatim>\<open>count()\<close> is
  the number of entries of the bucket.
\<close>

theorem count_agrees_with_filter:
  assumes "REGISTERS st (klass_qualname self) = Some b"
  shows "(\<exists>xs. filter_repo self p st = Inr xs \<and> count self (Some p) st = Inr (int (length xs)))
         \<and> count self None st = Inr (int (length b))"
  using assms by (simp add: count_def filter_repo_def)

theorem count_agrees_with_filter_witness:
  "REGISTERS zoo_rex (klass_qualname dog_repo) = Some [(1, rex)]
   \<and> (\<exists>xs. filter_repo dog_repo (\<lambda>a. snd a = ''Rex'') zoo_rex = Inr xs
          \<and> count dog_repo (Some (\<lambda>a. snd a = ''Rex'')) zoo_rex = Inr (int (length xs)))
   \<and> count dog_repo None zoo_rex = Inr 1"
proof -
  have b: "REGISTERS zoo_rex (klass_qualname dog_repo) = Some [(1, rex)]"
    by (simp add: dog_repo_def zoo_rex_REGISTERS)
  show ?thesis
    using count_agrees_with_filter [OF b, of "\<lambda>a. snd a = ''Rex''"] b by simp
qed

text \<open>
  C10. On a repository whose cached list is not empty (and whose buckets exist, as they do in
  every reachable state), \<^verbatim>\<open>insert\<close> raises \<^verbatim>\<open>AssertionError\<close> as soon as the id is a
  key of the bucket of one of the cached identifiers, also when that bucket holds the very
  object being inserted; so a second \<^verbatim>\<open>insert\<close> of the same object, right after the
  first, always raises \<^verbatim>\<open>AssertionError\<close>, whatever the first one did.
\<close>

theorem insert_asserts_on_key_presence:
  assumes own: "REGISTERS st (klass_qualname self) \<noteq> None"
      and sup: "SUPER_KLASSES_WITH_REPO st (klass_qualname self) = Some supers"
      and ne: "supers \<noteq> []"
      and bs: "list_all (\<lambda>a. REGISTERS st a \<noteq> None) supers"
  shows "((\<exists>a\<in>set supers. has_key (REGISTERS st) a (get_id self obj))
            \<longrightarrow> fst (insert_repo self obj st) = Inl AssertionError)
         \<and> ((\<exists>a\<in>set supers. entry st a (get_id self obj) = Some obj)
            \<longrightarrow> fst (insert_repo self obj st) = Inl AssertionError)
         \<and> fst (insert_repo self obj (snd (insert_repo self obj st))) = Inl AssertionError"
proof (intro conjI impI)
  assume "\<exists>a\<in>set supers. has_key (REGISTERS st) a (get_id self obj)"
  with own sup bs show "fst (insert_repo self obj st) = Inl AssertionError"
    by (rule insert_repo_conflict)
next
  assume "\<exists>a\<in>set supers. entry st a (get_id self obj) = Some obj"
  then have "\<exists>a\<in>set supers. has_key (REGISTERS st) a (get_id self obj)"
    by (auto simp: entry_def has_key_def split: option.splits)
  with own sup bs show "fst (insert_repo self obj st) = Inl AssertionError"
    by (rule insert_repo_conflict)
next
  let ?st = "snd (insert_repo self obj st)"
  let ?i = "get_id self obj"
  from own obtain b where b: "REGISTERS st (klass_qualname self) = Some b" by auto
  let ?R = "(REGISTERS st)(klass_qualname self \<mapsto> AList.update ?i obj b)"
  have own': "REGISTERS ?st (klass_qualname self) \<noteq> None"
    using own by (simp add: insert_repo_REGISTERS_dom)
  have sup': "SUPER_KLASSES_WITH_REPO ?st (klass_qualname self) = Some supers"
    using sup by (rule insert_repo_SUPER_keeps)
  have bs': "list_all (\<lambda>a. REGISTERS ?st a \<noteq> None) supers"
    using bs by (simp add: insert_repo_REGISTERS_dom)
  have "list_all (\<lambda>a. ?R a \<noteq> None) supers"
    using bs by (simp add: list_all_iff)
  then have "has_key (snd (fan_out supers ?i obj ?R)) (hd supers) ?i"
    using ne by (rule fan_out_leaves_key)
  then have "has_key (REGISTERS ?st) (hd supers) ?i"
    by (simp add: insert_repo_unfold [OF b] defaultdict_getitem_def sup)
  with ne have key': "\<exists>a\<in>set supers. has_key (REGISTERS ?st) a ?i"
    by (auto intro: bexI [of _ "hd supers"])
  from own' sup' bs' key' show "fst (insert_repo self obj ?st) = Inl AssertionError"
    by (rule insert_repo_conflict)
qed

theorem insert_asserts_on_key_presence_witness:
  "REGISTERS zoo (klass_qualname dog_repo) \<noteq> None
   \<and> SUPER_KLASSES_WITH_REPO zoo (klass_qualname dog_repo) = Some [''zoo.Animal'']
   \<and> [''zoo.Animal''] \<noteq> []
   \<and> list_all (\<lambda>a. REGISTERS zoo a \<noteq> None) [''zoo.Animal'']
   \<and> fst (insert_repo dog_repo rex zoo) = Inr True
   \<and> fst (insert_repo dog_repo rex (snd (insert_repo dog_repo rex zoo))) = Inl AssertionError"
proof -
  have own: "REGISTERS zoo (klass_qualname dog_repo) \<noteq> None"
    by (simp add: dog_repo_def zoo_REGISTERS)
  have sup: "SUPER_KLASSES_WITH_REPO zoo (klass_qualname dog_repo) = Some [''zoo.Animal'']"
    by (simp add: dog_repo_def zoo_SUPER)
  have ne: "[''zoo.Animal''] \<noteq> []" by simp
  have bs: "list_all (\<lambda>a. REGISTERS zoo a \<noteq> None) [''zoo.Animal'']"
    by (simp add: zoo_REGISTERS)
  show ?thesis
    using insert_asserts_on_key_presence [OF own sup ne bs, of rex] own sup bs insert_rex_zoo
    by simp
qed

text \<open>
  C4. Let the bucket of an ancestor \<open>A\<close> of \<open>S\<close> exist when the first repository of
  \<open>S\<close> is constructed. After any later sequence of calls, an \<^verbatim>\<open>insert\<close> through the
  repository of \<open>S\<close> that returns leaves the object in the bucket of \<open>A\<close>: a repository
  of \<open>A\<close> returns it from \<^verbatim>\<open>get\<close> of its id, lists it in \<^verbatim>\<open>all\<close>, and lists it
  in \<^verbatim>\<open>filter(p)\<close> for every predicate \<open>p\<close> it satisfies.
\<close>

theorem insert_propagates_to_ancestor:
  assumes first: "SUPER_KLASSES_WITH_REPO st (get_dotted_path S) = None"
      and anc: "A \<in> set (super_klasses S)"
      and bucket: "REGISTERS st (get_dotted_path A) \<noteq> None"
      and ins: "insert_repo (fst (init S gid st)) obj (run calls (snd (init S gid st)))
                  = (Inr True, st')"
      and a_repo: "klass_qualname a_repo = get_dotted_path A"
  shows "get a_repo (gid obj) st' = Inr obj
         \<and> (\<exists>xs. all_repo a_repo st' = Inr xs \<and> obj \<in> set xs)
         \<and> (p obj \<longrightarrow> (\<exists>xs. filter_repo a_repo p st' = Inr xs \<and> obj \<in> set xs))"
proof -
  let ?self = "fst (init S gid st)"
  let ?st = "run calls (snd (init S gid st))"
  let ?supers = "[get_dotted_path c. c \<leftarrow> mro S, REGISTERS st (get_dotted_path c) \<noteq> None]"
  have q: "klass_qualname ?self = get_dotted_path S" and g: "get_id ?self = gid"
    by (simp_all add: init_repository)
  have sup: "SUPER_KLASSES_WITH_REPO ?st (get_dotted_path S) = Some ?supers"
    using first by (intro run_SUPER_keeps init_first_SUPER)
  have mem: "get_dotted_path A \<in> set ?supers"
    using anc bucket by (auto simp: mro_def)
  from ins obtain b where b: "REGISTERS ?st (klass_qualname ?self) = Some b"
    by (cases "REGISTERS ?st (klass_qualname ?self)") (auto simp: insert_repo_no_bucket)
  from ins have
    "fan_out ?supers (gid obj) obj
       ((REGISTERS ?st)(get_dotted_path S \<mapsto> AList.update (gid obj) obj b))
     = (Inr True, REGISTERS st')"
    unfolding insert_repo_unfold [OF b] using sup
    by (auto simp: q g defaultdict_getitem_def prod_eq_iff)
  from fan_out_success [OF this mem] obtain c where
    c: "REGISTERS st' (get_dotted_path A) = Some c" "map_of c (gid obj) = Some obj"
    by blast
  from c(2) have "obj \<in> set (map snd c)"
    by (force dest: map_of_SomeD)
  with c show ?thesis
    by (simp add: get_def all_repo_def filter_repo_def a_repo)
qed

theorem insert_propagates_to_ancestor_witness:
  "SUPER_KLASSES_WITH_REPO animal_registered (get_dotted_path Dog) = None
   \<and> Animal \<in> set (super_klasses Dog)
   \<and> REGISTERS animal_registered (get_dotted_path Animal) \<noteq> None
   \<and> insert_repo (fst (init Dog fst animal_registered)) rex
         (run [Register_klass Object, Init Animal fst] (snd (init Dog fst animal_registered)))
       = (Inr True, zoo_later)
   \<and> klass_qualname animal_repo = get_dotted_path Animal
   \<and> get animal_repo 1 zoo_later = Inr rex
   \<and> (\<exists>xs. all_repo animal_repo zoo_later = Inr xs \<and> rex \<in> set xs)
   \<and> (\<exists>xs. filter_repo animal_repo (\<lambda>a. snd a = ''Rex'') zoo_later = Inr xs \<and> rex \<in> set xs)"
proof -
  have first: "SUPER_KLASSES_WITH_REPO animal_registered (get_dotted_path Dog) = None"
    by (simp add: zoo_defs)
  have anc: "Animal \<in> set (super_klasses Dog)"
    by (simp add: zoo_defs)
  have bucket: "REGISTERS animal_registered (get_dotted_path Animal) \<noteq> None"
    by (simp add: zoo_defs)
  have ins: "insert_repo (fst (init Dog fst animal_registered)) rex
               (run [Register_klass Object, Init Animal fst] (snd (init Dog fst animal_registered)))
             = (Inr True, zoo_later)"
    apply (simp add: zoo_later_def prod_eq_iff)
    apply (simp add: run_def zoo_defs insert_repo_def defaultdict_getitem_def)
    done
  have a_repo: "klass_qualname animal_repo = get_dotted_path Animal"
    by (simp add: zoo_defs)
  show ?thesis
    using insert_propagates_to_ancestor
            [OF first anc bucket ins a_repo, of "\<lambda>a. snd a = ''Rex''"]
          first anc bucket ins a_repo
    by (simp add: rex_def)
qed

text \<open>
  C3. \<^verbatim>\<open>register_klass(Dog)\<close> on the empty dictionaries, then the first
  \<^verbatim>\<open>InMemoryRepository(Dog)\<close>: the list cached for \<open>Dog\<close> is \<open>Dog\<close>'s own identifier,
  because \<^verbatim>\<open>klass.mro()\<close> starts with the class itself and its bucket exists by then.
  Every insert through this repository then raises \<^verbatim>\<open>AssertionError\<close>.
\<close>

theorem registered_class_caches_own_identifier:
  "get_dotted_path Dog = ''zoo.Dog''
   \<and> SUPER_KLASSES_WITH_REPO (snd (register_klass Dog empty_registry)) ''zoo.Dog'' = None
   \<and> SUPER_KLASSES_WITH_REPO dog_registered ''zoo.Dog'' = Some [''zoo.Dog'']
   \<and> fst (insert_repo dog_repo rex dog_registered) = Inl AssertionError"
  by (simp add: dog_registered_def zoo_defs insert_repo_def defaultdict_getitem_def)

text \<open>
  C1. A missing bucket and a missing id raise the same class of exception,
  \<^verbatim>\<open>NotFound\<close>: \<^verbatim>\<open>get\<close> on the empty dictionaries and \<^verbatim>\<open>get\<close> on an empty bucket
  differ in the message only, and \<^verbatim>\<open>pop\<close> raises the same exception in both states.
\<close>

theorem missing_bucket_raises_NotFound:
  "REGISTERS empty_registry (klass_qualname dog_repo) = None
   \<and> REGISTERS zoo (klass_qualname dog_repo) = Some []
   \<and> get dog_repo 1 empty_registry = Inl (NotFound (NO_REPOSITORY_MSG ''zoo.Dog''))
   \<and> get dog_repo 1 zoo = Inl (NotFound (NOT_FOUND_MSG Builtin_id ''zoo.Dog''))
   \<and> map_sum class_of id (get dog_repo 1 empty_registry) = Inl NotFound_class
   \<and> map_sum class_of id (get dog_repo 1 zoo) = Inl NotFound_class
   \<and> fst (pop dog_repo 1 empty_registry) = fst (pop dog_repo 1 zoo)"
  by (simp add: get_def pop_def repr_def zoo_REGISTERS dog_repo_def empty_registry_def Dog_def)

text \<open>
  C1, as the code has it. \<^verbatim>\<open>get\<close>, \<^verbatim>\<open>get_or_none\<close>, \<^verbatim>\<open>all\<close>, \<^verbatim>\<open>exists\<close>,
  \<^verbatim>\<open>count\<close>, \<^verbatim>\<open>filter\<close>, \<^verbatim>\<open>insert\<close> and \<^verbatim>\<open>update\<close> on a class identifier that
  has no bucket raise \<^verbatim>\<open>NotFound\<close> with the no-repository message and change nothing;
  \<^verbatim>\<open>get\<close> of an id that an existing bucket does not hold raises \<^verbatim>\<open>NotFound\<close> with the
  not-found message. The two exceptions are of the same class and differ in the message.
\<close>

theorem missing_bucket_is_NotFound_with_own_message:
  assumes "REGISTERS st (klass_qualname self) = None"
  shows "get self i st = Inl (NotFound (NO_REPOSITORY_MSG (klass_qualname self)))
         \<and> get_or_none self i st = Inl (NotFound (NO_REPOSITORY_MSG (klass_qualname self)))
         \<and> all_repo self st = Inl (NotFound (NO_REPOSITORY_MSG (klass_qualname self)))
         \<and> exists self i st = Inl (NotFound (NO_REPOSITORY_MSG (klass_qualname self)))
         \<and> count self predicate st = Inl (NotFound (NO_REPOSITORY_MSG (klass_qualname self)))
         \<and> filter_repo self p st = Inl (NotFound (NO_REPOSITORY_MSG (klass_qualname self)))
         \<and> insert_repo self obj st
             = (Inl (NotFound (NO_REPOSITORY_MSG (klass_qualname self))), st)
         \<and> update_repo self obj st
             = (Inl (NotFound (NO_REPOSITORY_MSG (klass_qualname self))), st)
         \<and> (REGISTERS st' (klass_qualname self) = Some b \<and> map_of b i = None \<longrightarrow>
              get self i st' = Inl (NotFound (NOT_FOUND_MSG Builtin_id (repr self)))
              \<and> get self i st' \<noteq> get self i st
              \<and> map_sum class_of id (get self i st') = map_sum class_of id (get self i st))"
  using assms
  by (auto simp: get_def get_or_none_def all_repo_def exists_def count_def filter_repo_def
        insert_repo_def update_repo_def split: option.splits)

theorem missing_bucket_is_NotFound_with_own_message_witness:
  "REGISTERS empty_registry (klass_qualname dog_repo) = None
   \<and> REGISTERS zoo (klass_qualname dog_repo) = Some [] \<and> map_of ([] :: (nat \<times> nat \<times> string) list) 1 = None
   \<and> get dog_repo 1 empty_registry = Inl (NotFound (NO_REPOSITORY_MSG ''zoo.Dog''))
   \<and> insert_repo dog_repo rex empty_registry
       = (Inl (NotFound (NO_REPOSITORY_MSG ''zoo.Dog'')), empty_registry)
   \<and> get dog_repo 1 zoo = Inl (NotFound (NOT_FOUND_MSG Builtin_id ''zoo.Dog''))
   \<and> get dog_repo 1 zoo \<noteq> get dog_repo 1 empty_registry"
proof -
  have none: "REGISTERS empty_registry (klass_qualname dog_repo) = None"
    by (simp add: empty_registry_def)
  have some: "REGISTERS zoo (klass_qualname dog_repo) = Some []"
    by (simp add: dog_repo_def zoo_REGISTERS)
  have q: "klass_qualname dog_repo = ''zoo.Dog''" "repr dog_repo = ''zoo.Dog''"
    by (simp_all add: dog_repo_def repr_def Dog_def)
  show ?thesis
    using missing_bucket_is_NotFound_with_own_message
            [OF none, of 1 None "\<lambda>a. True" rex zoo "[]"] none some
    by (simp add: q)
qed

text \<open>
  C2. With \<open>rex\<close> already in the bucket of \<open>Animal\<close>, an insert of \<open>rex\<close> through
  the repository of \<open>Dog\<close> raises \<^verbatim>\<open>AssertionError\<close>; \<^verbatim>\<open>batch_update\<close> of
  \<open>rex\<close> and \<open>max_dog\<close> in the same state returns a result dict, with \<open>False\<close> under
  the id of \<open>rex\<close> and \<open>True\<close> under the id of \<open>max_dog\<close>.
\<close>

theorem batch_update_catches_assertion:
  "fst (insert_repo dog_repo rex zoo_rex) = Inl AssertionError
   \<and> fst (batch_update dog_repo [rex, max_dog] zoo_rex) = Inr [(1, False), (2, True)]"
  by (simp add: batch_update_def error_catcher_def insert_repo_def defaultdict_getitem_def
        zoo_rex_SUPER zoo_rex_REGISTERS dog_repo_def rex_def max_dog_def)

text \<open>
  C2, as the code has it. \<^verbatim>\<open>AssertionError\<close> is one of the classes that
  \<^verbatim>\<open>batch_update\<close> hands to \<^verbatim>\<open>error_catcher\<close>. When the insert of an object of the
  batch raises it, \<^verbatim>\<open>batch_update\<close> still returns a result dict with an entry for every
  id of the batch, the objects after it are inserted as well, and the entry of the object is
  \<open>False\<close> unless a later object of the batch has the same id.
\<close>

theorem batch_update_records_conflict:
  assumes inv: "supers_have_buckets (klass_qualname self) st"
      and conflict: "fst (insert_repo self obj (insert_each self pre st)) = Inl AssertionError"
      and last: "get_id self obj \<notin> get_id self ` set post"
  shows "\<exists>m. batch_update self (pre @ obj # post) st
                = (Inr m, insert_each self (pre @ obj # post) st)
              \<and> map_of m (get_id self obj) = Some False
              \<and> fst ` set m = get_id self ` set (pre @ obj # post)"
proof -
  let ?m = "record_all [] (outcomes self (pre @ obj # post) st)"
  have "batch_update self (pre @ obj # post) st
          = (Inr ?m, insert_each self (pre @ obj # post) st)"
    using inv by (simp add: batch_update_def batch_loop_eq)
  moreover have "map_of ?m (get_id self obj) = Some False"
    using record_all_last_outcome [OF last, of pre st] conflict by simp
  moreover have "fst ` set ?m = get_id self ` set (pre @ obj # post)"
    by (rule record_all_outcomes_keys)
  ultimately show ?thesis
    by (intro exI [of _ ?m] conjI)
qed

theorem batch_update_records_conflict_witness:
  "supers_have_buckets (klass_qualname dog_repo) zoo_rex
   \<and> fst (insert_repo dog_repo rex (insert_each dog_repo [] zoo_rex)) = Inl AssertionError
   \<and> get_id dog_repo rex \<notin> get_id dog_repo ` set [max_dog]
   \<and> (\<exists>m. batch_update dog_repo ([] @ rex # [max_dog]) zoo_rex
             = (Inr m, insert_each dog_repo ([] @ rex # [max_dog]) zoo_rex)
           \<and> map_of m (get_id dog_repo rex) = Some False
           \<and> fst ` set m = get_id dog_repo ` set ([] @ rex # [max_dog]))"
proof -
  have inv: "supers_have_buckets (klass_qualname dog_repo) zoo_rex"
    by (rule zoo_supers_have_buckets)
  have conflict:
    "fst (insert_repo dog_repo rex (insert_each dog_repo [] zoo_rex)) = Inl AssertionError"
    by (simp add: insert_each_def insert_repo_def defaultdict_getitem_def
          zoo_rex_SUPER zoo_rex_REGISTERS dog_repo_def rex_def)
  have last: "get_id dog_repo rex \<notin> get_id dog_repo ` set [max_dog]"
    by (simp add: dog_repo_def rex_def max_dog_def)
  from batch_update_records_conflict [OF inv conflict last]
  show ?thesis
    by (intro conjI inv conflict last)
qed

text \<open>
  C7. In a state where every identifier cached for the repository's class has a bucket
  (every reachable state), \<^verbatim>\<open>batch_update\<close> returns a result dict whatever the inserts
  do. The state it leaves is the one that inserting the objects one after the other leaves,
  raised or not. The dict has exactly one entry for each id of the batch. The entry of an id
  tells whether the insert of the last object of that id returned, and that outcome is the
  one the insert has when only the earlier objects of the same id have been inserted before:
  objects of other ids, failed or not, do not change it.
\<close>

theorem batch_update_per_item:
  assumes inv: "supers_have_buckets (klass_qualname self) st"
  shows "\<exists>m. batch_update self objs st = (Inr m, insert_each self objs st)
              \<and> distinct (map fst m)
              \<and> fst ` set m = get_id self ` set objs
              \<and> (\<forall>pre obj post.
                    objs = pre @ obj # post \<and> get_id self obj \<notin> get_id self ` set post \<longrightarrow>
                    map_of m (get_id self obj)
                      = Some (fst (insert_repo self obj
                                     (insert_each self
                                        [o' \<leftarrow> pre. get_id self o' = get_id self obj] st))
                              = Inr True))"
proof -
  let ?m = "record_all [] (outcomes self objs st)"
  have "batch_update self objs st = (Inr ?m, insert_each self objs st)"
    using inv by (simp add: batch_update_def batch_loop_eq)
  moreover have "distinct (map fst ?m)"
    by (rule record_all_distinct) simp
  moreover have "fst ` set ?m = get_id self ` set objs"
    by (rule record_all_outcomes_keys)
  moreover have "map_of ?m (get_id self obj)
                   = Some (fst (insert_repo self obj
                                  (insert_each self
                                     [o' \<leftarrow> pre. get_id self o' = get_id self obj] st))
                           = Inr True)"
    if "objs = pre @ obj # post" and "get_id self obj \<notin> get_id self ` set post"
    for pre obj post
    using record_all_last_outcome [OF that(2), of pre st] that(1)
    by (simp only: insert_repo_after_other_ids [symmetric])
  ultimately show ?thesis
    by (intro exI [of _ ?m] conjI allI impI) (assumption | erule conjE)+
qed

theorem batch_update_per_item_witness:
  "supers_have_buckets (klass_qualname dog_repo) zoo
   \<and> [rex, max_dog, rex] = [rex] @ max_dog # [rex]
   \<and> get_id dog_repo max_dog \<notin> get_id dog_repo ` set [rex]
   \<and> (\<exists>m. batch_update dog_repo [rex, max_dog, rex] zoo
             = (Inr m, insert_each dog_repo [rex, max_dog, rex] zoo)
           \<and> distinct (map fst m)
           \<and> fst ` set m = get_id dog_repo ` set [rex, max_dog, rex]
           \<and> map_of m (get_id dog_repo max_dog)
               = Some (fst (insert_repo dog_repo max_dog zoo) = Inr True))"
proof -
  have inv: "supers_have_buckets (klass_qualname dog_repo) zoo"
    by (rule zoo_supers_have_buckets)
  have split: "[rex, max_dog, rex] = [rex] @ max_dog # [rex]" by simp
  have last: "get_id dog_repo max_dog \<notin> get_id dog_repo ` set [rex]"
    by (simp add: dog_repo_def rex_def max_dog_def)
  have none: "[o' \<leftarrow> [rex]. get_id dog_repo o' = get_id dog_repo max_dog] = []"
    by (simp add: dog_repo_def rex_def max_dog_def)
  from batch_update_per_item [OF inv, of "[rex, max_dog, rex]"] obtain m where
    m: "batch_update dog_repo [rex, max_dog, rex] zoo
          = (Inr m, insert_each dog_repo [rex, max_dog, rex] zoo)"
       "distinct (map fst m)"
       "fst ` set m = get_id dog_repo ` set [rex, max_dog, rex]"
    and each: "\<forall>pre obj post.
       [rex, max_dog, rex] = pre @ obj # post
         \<and> get_id dog_repo obj \<notin> get_id dog_repo ` set post \<longrightarrow>
       map_of m (get_id dog_repo obj)
         = Some (fst (insert_repo dog_repo obj
                        (insert_each dog_repo
                           [o' \<leftarrow> pre. get_id dog_repo o' = get_id dog_repo obj] zoo))
                 = Inr True)"
    by (elim exE conjE)
  from each have
    "[rex, max_dog, rex] = [rex] @ max_dog # [rex]
       \<and> get_id dog_repo max_dog \<notin> get_id dog_repo ` set [rex] \<longrightarrow>
     map_of m (get_id dog_repo max_dog)
       = Some (fst (insert_repo dog_repo max_dog
                      (insert_each dog_repo
                         [o' \<leftarrow> [rex]. get_id dog_repo o' = get_id dog_repo max_dog] zoo))
               = Inr True)"
    by (elim allE)
  with split last have
    "map_of m (get_id dog_repo max_dog)
       = Some (fst (insert_repo dog_repo max_dog
                      (insert_each dog_repo
                         [o' \<leftarrow> [rex]. get_id dog_repo o' = get_id dog_repo max_dog] zoo))
               = Inr True)"
    by (elim impE) (intro conjI)
  then have
    "map_of m (get_id dog_repo max_dog) = Some (fst (insert_repo dog_repo max_dog zoo) = Inr True)"
    by (simp only: none insert_each_def foldl.simps)
  with m show ?thesis
    by (intro conjI exI [of _ m] inv split last)
qed

end
